theory Spec2Isabelle
  imports Main "HOL-Library.Sublist" "HOL-Library.Multiset"
begin

section \<open>The Kratos configuration substitutor (docker/kratos/substitute.py)\<close>

text \<open>
  The script reads a template file, replaces the placeholders of four environment
  variables in it, one variable after the other, and writes the result to an output
  file. A text is the list of its characters. The placeholders are ASCII, so the
  replacements are the same whether a \<open>char\<close> is read as a code point or as a byte
  of the UTF-8 encoding; \<open>str_replace\<close> itself is defined for any type of character.
\<close>

subsection \<open>Python's \<open>str.replace\<close> and \<open>os.environ.get\<close>\<close>

text \<open>
  \<open>s.replace(old, new)\<close> scans \<open>s\<close> from the left; wherever \<open>old\<close> starts it emits
  \<open>new\<close> and continues behind the occurrence, otherwise it copies one character.
  For an empty \<open>old\<close> Python puts \<open>new\<close> in front of every character and at the end.
\<close>

function str_replace :: "'a list \<Rightarrow> 'a list \<Rightarrow> 'a list \<Rightarrow> 'a list" where
  "str_replace s old new =
     (if old = [] then new @ concat (map (\<lambda>c. c # new) s)
      else if s = [] then []
      else if prefix old s then new @ str_replace (drop (length old) s) old new
      else hd s # str_replace (tl s) old new)"
  by pat_completeness auto
termination
  by (relation "measure (\<lambda>(s, old, new). length s)") auto

declare str_replace.simps [simp del]

text \<open>\<open>os.environ\<close> is a dictionary from names to values; \<open>get\<close> has a default.\<close>

type_synonym environ = "string \<rightharpoonup> string"

definition environ_get :: "environ \<Rightarrow> string \<Rightarrow> string \<Rightarrow> string" where
  "environ_get env k dflt = (case env k of None \<Rightarrow> dflt | Some v \<Rightarrow> v)"

subsection \<open>The variable table and the replacement loop\<close>

text \<open>
  \<open>vars_to_sub\<close> is a dictionary literal; iterating over its items follows the order
  of the literal, so it is an association list here.
\<close>

definition vars_to_sub :: "environ \<Rightarrow> (string \<times> string) list" where
  "vars_to_sub env =
     [(''KRATOS_DSN'', environ_get env ''KRATOS_DSN'' ''''),
      (''KRATOS_CIPHER_SECRET'', environ_get env ''KRATOS_CIPHER_SECRET'' ''''),
      (''KRATOS_COOKIE_SECRET'', environ_get env ''KRATOS_COOKIE_SECRET'' ''''),
      (''KRATOS_SMTP_CONNECTION_URI'', environ_get env ''KRATOS_SMTP_CONNECTION_URI'' '''')]"

definition placeholder :: "string \<Rightarrow> string" where
  "placeholder var_name = ''${'' @ var_name @ ''}''"

text \<open>One iteration of the loop: the body applied to one item and the current content.\<close>

definition sub_step :: "string \<times> string \<Rightarrow> string \<Rightarrow> string" where
  "sub_step item content = str_replace content (placeholder (fst item)) (snd item)"

text \<open>The loop over a table, and the script's text transformation (lines 8 to 20).\<close>

definition sub_loop :: "(string \<times> string) list \<Rightarrow> string \<Rightarrow> string" where
  "sub_loop table content = fold sub_step table content"

definition substitute :: "environ \<Rightarrow> string \<Rightarrow> string" where
  "substitute env content = sub_loop (vars_to_sub env) content"

subsection \<open>The script as a whole\<close>

text \<open>
  The file system maps a path to the text a text-mode read of it returns, \<open>None\<close> where
  \<open>open(path, 'r')\<close> fails; \<open>writable\<close> says where \<open>open(path, 'w')\<close> and the write
  succeed. Every file operation and every printed line is logged in \<open>trace\<close>, in order.
  An exception that reaches the top level ends the process with exit status 1.
\<close>

datatype error = IndexError | OSError

datatype event = Read string | Write string string | Print string

record world =
  files :: "string \<rightharpoonup> string"
  writable :: "string \<Rightarrow> bool"
  trace :: "event list"

definition argv_get :: "string list \<Rightarrow> nat \<Rightarrow> error + string" where
  "argv_get argv i = (if i < length argv then Inr (argv ! i) else Inl IndexError)"

definition read_file :: "string \<Rightarrow> world \<Rightarrow> error + (string \<times> world)" where
  "read_file path w =
     (case files w path of
        None \<Rightarrow> Inl OSError
      | Some text \<Rightarrow> Inr (text, w\<lparr>trace := trace w @ [Read path]\<rparr>))"

definition write_file :: "string \<Rightarrow> string \<Rightarrow> world \<Rightarrow> error + world" where
  "write_file path text w =
     (if writable w path
      then Inr (w\<lparr>files := (files w)(path \<mapsto> text), trace := trace w @ [Write path text]\<rparr>)
      else Inl OSError)"

definition print_line :: "string \<Rightarrow> world \<Rightarrow> world" where
  "print_line line w = w\<lparr>trace := trace w @ [Print line]\<rparr>"

definition main :: "string list \<Rightarrow> environ \<Rightarrow> world \<Rightarrow> (error + unit) \<times> world" where
  "main argv env w =
     (case argv_get argv 1 of
        Inl e \<Rightarrow> (Inl e, w)
      | Inr template_file \<Rightarrow>
     (case argv_get argv 2 of
        Inl e \<Rightarrow> (Inl e, w)
      | Inr output_file \<Rightarrow>
     (case read_file template_file w of
        Inl e \<Rightarrow> (Inl e, w)
      | Inr (content, w1) \<Rightarrow>
     (case write_file output_file (substitute env content) w1 of
        Inl e \<Rightarrow> (Inl e, w1)
      | Inr w2 \<Rightarrow>
          (Inr (),
           print_line (''Substituted variables in '' @ template_file @ '' -> '' @ output_file)
             w2)))))"

definition exit_status :: "(error + unit) \<times> world \<Rightarrow> nat" where
  "exit_status r = (case fst r of Inl e \<Rightarrow> 1 | Inr u \<Rightarrow> 0)"

section \<open>Notions used to state the properties\<close>

subsection \<open>Placeholders in a text\<close>

text \<open>A name as it stands in a placeholder: it contains neither \<open>$\<close> nor \<open>}\<close>.\<close>

definition plain_name :: "string \<Rightarrow> bool" where
  "plain_name n = (CHR ''$'' \<notin> set n \<and> CHR ''}'' \<notin> set n)"

text \<open>Python's \<open>sep.join(parts)\<close>: the parts with \<open>sep\<close> between neighbours.\<close>

fun join_with :: "'a list \<Rightarrow> 'a list list \<Rightarrow> 'a list" where
  "join_with sep [] = []"
| "join_with sep [t] = t"
| "join_with sep (t # u # ts) = t @ sep @ join_with sep (u # ts)"

text \<open>
  The specification's reading of the loop, not code of the script: "the values are not
  re-scanned for further placeholders". One pass over the text from the left; where
  the placeholder of a table entry starts, the entry's value is emitted and the pass
  continues behind the placeholder, otherwise one character is copied.
\<close>

function single_pass :: "(string \<times> string) list \<Rightarrow> string \<Rightarrow> string" where
  "single_pass table s =
     (if s = [] then []
      else case find (\<lambda>item. prefix (placeholder (fst item)) s) table of
             Some item \<Rightarrow>
               snd item @ single_pass table (drop (length (placeholder (fst item))) s)
           | None \<Rightarrow> hd s # single_pass table (tl s))"
  by pat_completeness auto
termination
  by (relation "measure (\<lambda>(table, s). length s)") (auto simp: placeholder_def)

declare single_pass.simps [simp del]

text \<open>
  \<open>dollar_guarded ex s\<close>: every \<open>$\<close> of \<open>s\<close> is followed, inside \<open>s\<close>, either by a
  character other than \<open>{\<close> and \<open>$\<close>, or by \<open>{NAME}\<close> where \<open>NAME\<close> contains no
  \<open>$\<close> and is not one of the names \<open>ex\<close>.
\<close>

fun dollar_guarded :: "string list \<Rightarrow> string \<Rightarrow> bool" where
  "dollar_guarded ex [] = True"
| "dollar_guarded ex (c # cs) =
     ((if c = CHR ''$''
       then (case cs of
               [] \<Rightarrow> False
             | d # r \<Rightarrow>
                 if d = CHR ''{''
                 then CHR ''}'' \<in> set r
                      \<and> CHR ''$'' \<notin> set (takeWhile (\<lambda>x. x \<noteq> CHR ''}'') r)
                      \<and> takeWhile (\<lambda>x. x \<noteq> CHR ''}'') r \<notin> set ex
                 else d \<noteq> CHR ''$'')
       else True)
      \<and> dollar_guarded ex cs)"

text \<open>Every value of a table is guarded against the names declared after its own.\<close>

fun values_guarded :: "(string \<times> string) list \<Rightarrow> bool" where
  "values_guarded [] = True"
| "values_guarded (item # rest) =
     (dollar_guarded (map fst rest) (snd item) \<and> values_guarded rest)"

text \<open>Every value of a table is guarded against all names of the table but its own.\<close>

definition values_isolated :: "(string \<times> string) list \<Rightarrow> bool" where
  "values_isolated table =
     list_all (\<lambda>item. dollar_guarded (removeAll (fst item) (map fst table)) (snd item)) table"

section \<open>Facts about the replacement and the loop\<close>

subsection \<open>The three cases of \<open>str_replace\<close>\<close>

lemma str_replace_Nil: "old \<noteq> [] \<Longrightarrow> str_replace [] old new = []"
  by (simp add: str_replace.simps)

lemma str_replace_match:
  "old \<noteq> [] \<Longrightarrow> str_replace (old @ s) old new = new @ str_replace s old new"
  by (subst str_replace.simps) simp

lemma str_replace_skip:
  "old \<noteq> [] \<Longrightarrow> \<not> prefix old (c # s) \<Longrightarrow>
     str_replace (c # s) old new = c # str_replace s old new"
  by (subst str_replace.simps) simp

subsection \<open>Where the old text does not occur; where no occurrence crosses a boundary\<close>

lemma str_replace_absent:
  "old \<noteq> [] \<Longrightarrow> \<not> sublist old s \<Longrightarrow> str_replace s old new = s"
proof (induction s)
  case Nil
  then show ?case by (simp add: str_replace_Nil)
next
  case (Cons c s)
  from Cons.prems have np: "\<not> prefix old (c # s)" and ns: "\<not> sublist old s"
    by (auto simp: sublist_Cons_right)
  show ?case using Cons.IH [OF Cons.prems(1) ns] Cons.prems(1) np
    by (simp add: str_replace_skip)
qed

text \<open>
  Where no occurrence of \<open>old\<close> that starts in \<open>pre\<close> reaches beyond \<open>pre\<close>, the
  replacement works on \<open>pre\<close> and on the rest separately.
\<close>

lemma str_replace_append:
  assumes "old \<noteq> []" and "\<forall>b. suffix b pre \<and> b \<noteq> [] \<and> prefix old (b @ X) \<longrightarrow> prefix old b"
  shows "str_replace (pre @ X) old new = str_replace pre old new @ str_replace X old new"
  using assms(2)
proof (induction pre rule: length_induct)
  case (1 pre)
  show ?case
  proof (cases pre)
    case Nil
    then show ?thesis using assms(1) by (simp add: str_replace_Nil)
  next
    case (Cons c cs)
    show ?thesis
    proof (cases "prefix old (pre @ X)")
      case True
      moreover have "suffix pre pre" "pre \<noteq> []" using Cons by simp_all
      ultimately have "prefix old pre" using 1(2) by blast
      then obtain r where r: "pre = old @ r" by (auto simp: prefix_def)
      have "length r < length pre" using r assms(1) by simp
      moreover have "\<forall>b. suffix b r \<and> b \<noteq> [] \<and> prefix old (b @ X) \<longrightarrow> prefix old b"
      proof (intro allI impI)
        fix b assume b: "suffix b r \<and> b \<noteq> [] \<and> prefix old (b @ X)"
        then have "suffix b pre" using r by (simp add: suffix_appendI)
        with b 1(2) show "prefix old b" by blast
      qed
      ultimately have "str_replace (r @ X) old new = str_replace r old new @ str_replace X old new"
        using 1(1) by blast
      then show ?thesis using r assms(1) by (simp add: str_replace_match)
    next
      case False
      then have np: "\<not> prefix old (c # cs @ X)" using Cons by simp
      have np': "\<not> prefix old (c # cs)" using False Cons prefix_prefix by fastforce
      have "length cs < length pre" using Cons by simp
      moreover have "\<forall>b. suffix b cs \<and> b \<noteq> [] \<and> prefix old (b @ X) \<longrightarrow> prefix old b"
      proof (intro allI impI)
        fix b assume b: "suffix b cs \<and> b \<noteq> [] \<and> prefix old (b @ X)"
        then have "suffix b pre" using Cons by (simp add: suffix_ConsI)
        with b 1(2) show "prefix old b" by blast
      qed
      ultimately have "str_replace (cs @ X) old new = str_replace cs old new @ str_replace X old new"
        using 1(1) by blast
      then show ?thesis using Cons assms(1) np np' by (simp add: str_replace_skip)
    qed
  qed
qed

subsection \<open>The shape of a placeholder; one replacement around a placeholder\<close>

lemma placeholder_nonempty: "placeholder n \<noteq> []"
  by (simp add: placeholder_def)

lemma placeholder_head: "placeholder n = CHR ''$'' # tl (placeholder n)"
  by (simp add: placeholder_def)

lemma placeholder_last: "placeholder n = butlast (placeholder n) @ ''}''"
  by (simp add: placeholder_def butlast_append)

lemma placeholder_tl_no_dollar: "plain_name n \<Longrightarrow> CHR ''$'' \<notin> set (tl (placeholder n))"
  by (simp add: placeholder_def plain_name_def)

lemma placeholder_butlast_no_brace: "plain_name n \<Longrightarrow> CHR ''}'' \<notin> set (butlast (placeholder n))"
  by (simp add: placeholder_def plain_name_def butlast_append)

text \<open>
  A text whose first character is not repeated in it cannot start before a boundary
  and reach over it into a text that starts with this character; nor can a text whose
  last character is not repeated in it reach over a boundary this character precedes.
\<close>

lemma no_reach_into_head:
  assumes old: "old = d # body" "d \<notin> set body"
    and b: "b \<noteq> []" "prefix old (b @ d # Y)"
  shows "prefix old b"
proof -
  from b(2) consider "prefix old b" | us where "old = b @ us" "prefix us (d # Y)"
    by (auto simp: prefix_append)
  then show ?thesis
  proof cases
    case 1
    then show ?thesis .
  next
    case 2
    show ?thesis
    proof (cases us)
      case Nil
      with 2 show ?thesis by simp
    next
      case (Cons u us')
      with 2 have "u = d" by simp
      with 2(1) Cons b(1) old have False by (cases b) auto
      then show ?thesis ..
    qed
  qed
qed

lemma no_reach_over_last:
  assumes old: "old = body @ [e]" "e \<notin> set body"
    and b: "suffix b (p @ [e])" "b \<noteq> []" "prefix old (b @ X)"
  shows "prefix old b"
proof -
  from b(1,2) obtain b' where b': "b = b' @ [e]"
    by (metis last_appendR last_snoc snoc_eq_iff_butlast suffix_def)
  from b(3) consider "prefix old b" | us where "old = b @ us" "prefix us X"
    by (auto simp: prefix_append)
  then show ?thesis
  proof cases
    case 1
    then show ?thesis .
  next
    case 2
    show ?thesis
    proof (cases us rule: rev_cases)
      case Nil
      with 2 show ?thesis by simp
    next
      case (snoc us' u)
      with 2(1) b' old(1) have "body = b' @ [e] @ us'" by simp
      with old(2) have False by simp
      then show ?thesis ..
    qed
  qed
qed

lemma str_replace_before_dollar:
  assumes "plain_name m"
  shows "str_replace (pre @ CHR ''$'' # Y) (placeholder m) v =
         str_replace pre (placeholder m) v @ str_replace (CHR ''$'' # Y) (placeholder m) v"
proof (rule str_replace_append [OF placeholder_nonempty], intro allI impI)
  fix b assume "suffix b pre \<and> b \<noteq> [] \<and> prefix (placeholder m) (b @ CHR ''$'' # Y)"
  then show "prefix (placeholder m) b"
    using no_reach_into_head [OF placeholder_head placeholder_tl_no_dollar [OF assms]] by blast
qed

lemma str_replace_after_brace:
  assumes "plain_name m"
  shows "str_replace ((p @ ''}'') @ X) (placeholder m) v =
         str_replace (p @ ''}'') (placeholder m) v @ str_replace X (placeholder m) v"
proof (rule str_replace_append [OF placeholder_nonempty], intro allI impI)
  fix b assume "suffix b (p @ ''}'') \<and> b \<noteq> [] \<and> prefix (placeholder m) (b @ X)"
  then show "prefix (placeholder m) b"
    using no_reach_over_last [OF placeholder_last placeholder_butlast_no_brace [OF assms]] by blast
qed

lemma placeholder_not_sublist:
  assumes "plain_name m" "plain_name n" "m \<noteq> n"
  shows "\<not> sublist (placeholder m) (placeholder n)"
proof
  assume "sublist (placeholder m) (placeholder n)"
  then obtain ps ss where eq: "placeholder n = ps @ placeholder m @ ss"
    by (auto simp: sublist_def)
  have "ps = []"
  proof (cases ps)
    case Nil then show ?thesis .
  next
    case (Cons a as)
    with eq have "tl (placeholder n) = as @ placeholder m @ ss" by simp
    then have "CHR ''$'' \<in> set (tl (placeholder n))" by (simp add: placeholder_def)
    with placeholder_tl_no_dollar [OF assms(2)] show ?thesis by simp
  qed
  with eq have "n @ ''}'' = m @ CHR ''}'' # ss" by (simp add: placeholder_def)
  then have "takeWhile (\<lambda>c. c \<noteq> CHR ''}'') (n @ ''}'') = takeWhile (\<lambda>c. c \<noteq> CHR ''}'') (m @ CHR ''}'' # ss)"
    by simp
  moreover have "takeWhile (\<lambda>c. c \<noteq> CHR ''}'') (n @ ''}'') = n"
    using assms(2) by (auto simp: plain_name_def takeWhile_tail takeWhile_eq_all_conv)
  moreover have "takeWhile (\<lambda>c. c \<noteq> CHR ''}'') (m @ CHR ''}'' # ss) = m"
    using assms(1) by (auto simp: plain_name_def takeWhile_tail takeWhile_eq_all_conv)
  ultimately have "n = m" by simp
  with assms(3) show False by simp
qed

text \<open>
  One replacement around a placeholder: it works on the text before and on the text
  behind separately, and leaves the placeholder of another name between them.
\<close>

lemma sub_step_other:
  assumes "plain_name m" "\<not> sublist (placeholder m) (placeholder n)"
  shows "sub_step (m, v) (pre @ placeholder n @ post) =
         sub_step (m, v) pre @ placeholder n @ sub_step (m, v) post"
proof -
  have "str_replace (pre @ placeholder n @ post) (placeholder m) v =
        str_replace pre (placeholder m) v @ str_replace (placeholder n @ post) (placeholder m) v"
    using str_replace_before_dollar [OF assms(1), of pre "tl (placeholder n) @ post" v]
    by (simp add: placeholder_def)
  moreover have "str_replace (placeholder n @ post) (placeholder m) v =
        str_replace (placeholder n) (placeholder m) v @ str_replace post (placeholder m) v"
    using str_replace_after_brace [OF assms(1), of "butlast (placeholder n)" post v]
    by (simp add: placeholder_def butlast_append)
  moreover have "str_replace (placeholder n) (placeholder m) v = placeholder n"
    using assms(2) by (simp add: str_replace_absent placeholder_nonempty)
  ultimately show ?thesis by (simp add: sub_step_def)
qed

lemma sub_step_same:
  assumes "plain_name n"
  shows "sub_step (n, v) (pre @ placeholder n @ post) =
         sub_step (n, v) pre @ v @ sub_step (n, v) post"
proof -
  have "str_replace (pre @ placeholder n @ post) (placeholder n) v =
        str_replace pre (placeholder n) v @ str_replace (placeholder n @ post) (placeholder n) v"
    using str_replace_before_dollar [OF assms, of pre "tl (placeholder n) @ post" v]
    by (simp add: placeholder_def)
  then show ?thesis by (simp add: sub_step_def str_replace_match placeholder_nonempty)
qed

subsection \<open>Guarded text and its cases\<close>

lemma placeholder_prefix_free:
  assumes "plain_name m" "plain_name n" "m \<noteq> n"
  shows "\<not> prefix (placeholder m) (placeholder n @ R)"
proof
  assume "prefix (placeholder m) (placeholder n @ R)"
  then have "prefix (m @ ''}'') (n @ ''}'' @ R)" by (simp add: placeholder_def)
  then obtain ss where "n @ ''}'' @ R = (m @ ''}'') @ ss" by (rule prefixE)
  then have "takeWhile (\<lambda>c. c \<noteq> CHR ''}'') (n @ CHR ''}'' # R) = takeWhile (\<lambda>c. c \<noteq> CHR ''}'') (m @ CHR ''}'' # ss)"
    by simp
  moreover have "takeWhile (\<lambda>c. c \<noteq> CHR ''}'') (n @ CHR ''}'' # R) = n"
    using assms(2) by (auto simp: plain_name_def takeWhile_tail takeWhile_eq_all_conv)
  moreover have "takeWhile (\<lambda>c. c \<noteq> CHR ''}'') (m @ CHR ''}'' # ss) = m"
    using assms(1) by (auto simp: plain_name_def takeWhile_tail takeWhile_eq_all_conv)
  ultimately show False using assms(3) by simp
qed

lemma guarded_suffix: "dollar_guarded ex (a @ b) \<Longrightarrow> dollar_guarded ex b"
  by (induction a) simp_all

lemma guarded_mono: "set ex' \<subseteq> set ex \<Longrightarrow> dollar_guarded ex s \<Longrightarrow> dollar_guarded ex' s"
proof (induction s)
  case Nil
  then show ?case by simp
next
  case (Cons c cs)
  then have "dollar_guarded ex' cs" by simp
  moreover have "c = CHR ''$'' \<Longrightarrow> (case cs of
               [] \<Rightarrow> False
             | d # r \<Rightarrow>
                 if d = CHR ''{''
                 then CHR ''}'' \<in> set r
                      \<and> CHR ''$'' \<notin> set (takeWhile (\<lambda>x. x \<noteq> CHR ''}'') r)
                      \<and> takeWhile (\<lambda>x. x \<noteq> CHR ''}'') r \<notin> set ex'
                 else d \<noteq> CHR ''$'')"
    using Cons.prems by (cases cs) (auto split: if_splits)
  ultimately show ?case by simp
qed

lemma guarded_dollar_end: "\<not> dollar_guarded ex [CHR ''$'']"
  by simp

lemma guarded_dollar_brace:
  "dollar_guarded ex (CHR ''$'' # CHR ''{'' # r) \<Longrightarrow>
     CHR ''}'' \<in> set r \<and> CHR ''$'' \<notin> set (takeWhile (\<lambda>x. x \<noteq> CHR ''}'') r)
       \<and> takeWhile (\<lambda>x. x \<noteq> CHR ''}'') r \<notin> set ex"
  by simp

lemma guarded_dollar_other:
  "dollar_guarded ex (CHR ''$'' # d # r) \<Longrightarrow> d \<noteq> CHR ''{'' \<Longrightarrow> d \<noteq> CHR ''$''"
  by simp

lemma split_at_brace:
  assumes "CHR ''}'' \<in> set r"
  shows "\<exists>R. r = takeWhile (\<lambda>x. x \<noteq> CHR ''}'') r @ CHR ''}'' # R"
proof -
  let ?P = "\<lambda>x. x \<noteq> CHR ''}''"
  have ne: "dropWhile ?P r \<noteq> []" using assms by (simp add: dropWhile_eq_Nil_conv)
  then obtain a R where aR: "dropWhile ?P r = a # R" by (cases "dropWhile ?P r") auto
  from hd_dropWhile [OF ne] aR have "a = CHR ''}''" by simp
  with aR takeWhile_dropWhile_id [of ?P r] have "r = takeWhile ?P r @ CHR ''}'' # R" by simp
  then show ?thesis ..
qed

text \<open>The three ways a guarded text can start.\<close>

lemma guarded_cases:
  assumes "dollar_guarded ex (c # cs)"
  obtains (plain) "c \<noteq> CHR ''$''"
  | (stray) d r where "c = CHR ''$''" "cs = d # r" "d \<noteq> CHR ''{''" "d \<noteq> CHR ''$''"
  | (token) p R where "c # cs = placeholder p @ R" "plain_name p" "p \<notin> set ex"
proof (cases "c = CHR ''$''")
  case False
  then show ?thesis by (rule plain)
next
  case True
  show ?thesis
  proof (cases cs)
    case Nil
    with assms True show ?thesis using guarded_dollar_end by simp
  next
    case (Cons d r)
    show ?thesis
    proof (cases "d = CHR ''{''")
      case False
      with assms True Cons have "d \<noteq> CHR ''$''" using guarded_dollar_other by blast
      with True Cons False show ?thesis by (rule stray)
    next
      case d: True
      let ?p = "takeWhile (\<lambda>x. x \<noteq> CHR ''}'') r"
      from assms True Cons d have g: "dollar_guarded ex (CHR ''$'' # CHR ''{'' # r)" by simp
      from guarded_dollar_brace [OF g]
      have br: "CHR ''}'' \<in> set r" and nd: "CHR ''$'' \<notin> set ?p" and nex: "?p \<notin> set ex"
        by blast+
      from split_at_brace [OF br] obtain R where "r = ?p @ CHR ''}'' # R" ..
      then have "CHR ''$'' # CHR ''{'' # r = placeholder ?p @ R" by (simp add: placeholder_def)
      then have "c # cs = placeholder ?p @ R" using True Cons d by simp
      moreover have "plain_name ?p" using nd by (auto simp: plain_name_def dest: set_takeWhileD)
      ultimately show ?thesis using nex by (rule token)
    qed
  qed
qed

subsection \<open>One replacement passes over guarded text\<close>

lemma sub_step_Nil: "sub_step item [] = []"
  by (simp add: sub_step_def str_replace_Nil placeholder_nonempty)

lemma placeholder_not_prefix_plain:
  "c \<noteq> CHR ''$'' \<Longrightarrow> \<not> prefix (placeholder m) (c # cs)"
  by (simp add: placeholder_def)

lemma placeholder_not_prefix_stray:
  "d \<noteq> CHR ''{'' \<Longrightarrow> \<not> prefix (placeholder m) (c # d # r)"
  by (simp add: placeholder_def)

lemma sub_step_skip:
  "\<not> prefix (placeholder (fst item)) (c # cs) \<Longrightarrow> sub_step item (c # cs) = c # sub_step item cs"
  by (simp add: sub_step_def str_replace_skip placeholder_nonempty)

text \<open>A replacement leaves a text guarded against its name as it is and goes on behind it.\<close>

lemma sub_step_guarded:
  assumes "plain_name n"
  shows "dollar_guarded [n] w \<Longrightarrow> sub_step (n, v) (w @ X) = w @ sub_step (n, v) X"
proof (induction w rule: length_induct)
  case (1 w)
  show ?case
  proof (cases w)
    case Nil
    then show ?thesis by simp
  next
    case (Cons c cs)
    from 1(2) Cons have g: "dollar_guarded [n] (c # cs)" by simp
    then have gcs: "dollar_guarded [n] cs" by simp
    have IHcs: "sub_step (n, v) (cs @ X) = cs @ sub_step (n, v) X"
      using 1(1) Cons gcs by simp
    from g show ?thesis
    proof (cases rule: guarded_cases)
      case plain
      then have "sub_step (n, v) (c # cs @ X) = c # sub_step (n, v) (cs @ X)"
        by (simp add: sub_step_skip placeholder_not_prefix_plain)
      with IHcs Cons show ?thesis by simp
    next
      case (stray d r)
      then have "sub_step (n, v) (c # cs @ X) = c # sub_step (n, v) (cs @ X)"
        by (simp add: sub_step_skip placeholder_not_prefix_stray)
      with IHcs Cons show ?thesis by simp
    next
      case (token p R)
      then have pn: "p \<noteq> n" by simp
      have "length R < length w" using token(1) Cons
        by (metis length_append length_greater_0_conv less_add_same_cancel2 add.commute placeholder_nonempty)
      moreover have "dollar_guarded [n] R" using g token(1) guarded_suffix by metis
      ultimately have IHR: "sub_step (n, v) (R @ X) = R @ sub_step (n, v) X"
        using 1(1) by blast
      have "sub_step (n, v) ([] @ placeholder p @ (R @ X)) =
            sub_step (n, v) [] @ placeholder p @ sub_step (n, v) (R @ X)"
        by (rule sub_step_other [OF assms placeholder_not_sublist [OF assms token(2)]]) (use pn in simp)
      with IHR token(1) Cons show ?thesis by (simp add: sub_step_Nil)
    qed
  qed
qed

lemma single_pass_Nil: "single_pass table [] = []"
  by (simp add: single_pass.simps)

lemma single_pass_copy:
  assumes "\<forall>item\<in>set table. \<not> prefix (placeholder (fst item)) (c # cs)"
  shows "single_pass table (c # cs) = c # single_pass table cs"
proof -
  have "find (\<lambda>item. prefix (placeholder (fst item)) (c # cs)) table = None"
    unfolding find_None_iff using assms by blast
  then show ?thesis by (subst single_pass.simps) simp
qed

lemma single_pass_no_dollar:
  "CHR ''$'' \<notin> set u \<Longrightarrow> single_pass table (u @ X) = u @ single_pass table X"
proof (induction u)
  case Nil
  then show ?case by simp
next
  case (Cons c u)
  then have "c \<noteq> CHR ''$''" by auto
  then have "single_pass table (c # u @ X) = c # single_pass table (u @ X)"
    by (intro single_pass_copy ballI placeholder_not_prefix_plain)
  with Cons show ?case by simp
qed

lemma find_key:
  assumes "\<forall>item\<in>set table. plain_name (fst item)" "plain_name p"
  shows "find (\<lambda>item. prefix (placeholder (fst item)) (placeholder p @ R)) table
         = find (\<lambda>item. fst item = p) table"
proof (rule find_cong [OF refl])
  fix item assume "item \<in> set table"
  with assms(1) have "plain_name (fst item)" by blast
  then show "prefix (placeholder (fst item)) (placeholder p @ R) = (fst item = p)"
    using placeholder_prefix_free [OF _ assms(2), of "fst item" R] by auto
qed

lemma single_pass_token:
  assumes "\<forall>item\<in>set table. plain_name (fst item)" "plain_name p"
  shows "single_pass table (placeholder p @ R) =
         (case find (\<lambda>item. fst item = p) table of
            Some item \<Rightarrow> snd item | None \<Rightarrow> placeholder p) @ single_pass table R"
proof (cases "find (\<lambda>item. fst item = p) table")
  case None
  then have "find (\<lambda>item. prefix (placeholder (fst item)) (placeholder p @ R)) table = None"
    using find_key [OF assms, of R] by simp
  then have no: "\<forall>item\<in>set table. \<not> prefix (placeholder (fst item)) (placeholder p @ R)"
    unfolding find_None_iff by blast
  have eq: "placeholder p @ R = CHR ''$'' # tl (placeholder p) @ R" by (simp add: placeholder_def)
  from no have "\<forall>item\<in>set table. \<not> prefix (placeholder (fst item)) (CHR ''$'' # tl (placeholder p) @ R)"
    unfolding eq .
  then have "single_pass table (CHR ''$'' # tl (placeholder p) @ R) =
        CHR ''$'' # single_pass table (tl (placeholder p) @ R)"
    by (rule single_pass_copy)
  then have "single_pass table (placeholder p @ R) =
        CHR ''$'' # single_pass table (tl (placeholder p) @ R)"
    unfolding eq .
  also have "\<dots> = CHR ''$'' # tl (placeholder p) @ single_pass table R"
    by (simp add: single_pass_no_dollar placeholder_tl_no_dollar [OF assms(2)])
  also have "\<dots> = placeholder p @ single_pass table R" by (simp add: placeholder_def)
  finally show ?thesis using None by simp
next
  case (Some item)
  then have f: "find (\<lambda>item. prefix (placeholder (fst item)) (placeholder p @ R)) table = Some item"
    using find_key [OF assms, of R] by simp
  from Some have "fst item = p" by (auto simp: find_Some_iff)
  with f have "single_pass table (placeholder p @ R) = snd item @ single_pass table R"
    by (subst single_pass.simps) (simp add: placeholder_nonempty)
  with Some show ?thesis by simp
qed

subsection \<open>The loop and the single pass\<close>

lemma find_snoc:
  "find P (xs @ [y]) = (case find P xs of Some x \<Rightarrow> Some x | None \<Rightarrow> if P y then Some y else None)"
  by (induction xs) simp_all

lemma find_in_set: "find P xs = Some x \<Longrightarrow> x \<in> set xs"
  by (induction xs) (auto split: if_splits)

text \<open>
  The single pass with one more entry at the end of the table is the single pass with
  the table, followed by the replacement of the new entry: the step of the loop.
\<close>

lemma single_pass_snoc:
  assumes names: "\<forall>item\<in>set table. plain_name (fst item)" "plain_name n"
    and fresh: "n \<notin> fst ` set table"
    and vals: "\<forall>item\<in>set table. dollar_guarded [n] (snd item)"
  shows "dollar_guarded [] T \<Longrightarrow>
         sub_step (n, v) (single_pass table T) = single_pass (table @ [(n, v)]) T"
proof (induction T rule: length_induct)
  case (1 T)
  let ?table' = "table @ [(n, v)]"
  have names': "\<forall>item\<in>set ?table'. plain_name (fst item)" using names by simp
  show ?case
  proof (cases T)
    case Nil
    then show ?thesis by (simp add: single_pass_Nil sub_step_Nil)
  next
    case (Cons c cs)
    from 1(2) Cons have g: "dollar_guarded [] (c # cs)" by simp
    then have gcs: "dollar_guarded [] cs" by simp
    have IHcs: "sub_step (n, v) (single_pass table cs) = single_pass ?table' cs"
      using 1(1) Cons gcs by simp
    from g show ?thesis
    proof (cases rule: guarded_cases)
      case plain
      then have "single_pass table (c # cs) = c # single_pass table cs"
        and "single_pass ?table' (c # cs) = c # single_pass ?table' cs"
        by (intro single_pass_copy ballI placeholder_not_prefix_plain; assumption)+
      moreover have "sub_step (n, v) (c # single_pass table cs) = c # sub_step (n, v) (single_pass table cs)"
        using plain by (simp add: sub_step_skip placeholder_not_prefix_plain)
      ultimately show ?thesis using IHcs Cons by simp
    next
      case (stray d r)
      have "single_pass table (c # d # r) = c # single_pass table (d # r)"
        and "single_pass ?table' (c # d # r) = c # single_pass ?table' (d # r)"
        by (intro single_pass_copy ballI placeholder_not_prefix_stray stray(3))+
      moreover have "single_pass table (d # r) = d # single_pass table r"
        by (intro single_pass_copy ballI placeholder_not_prefix_plain stray(4))
      moreover have "sub_step (n, v) (c # d # single_pass table r) =
                     c # sub_step (n, v) (d # single_pass table r)"
        using stray(3) by (simp add: sub_step_skip placeholder_not_prefix_stray)
      ultimately show ?thesis using IHcs Cons stray(2) by simp
    next
      case (token p R)
      have "length R < length T" using token(1) Cons
        by (metis length_append length_greater_0_conv less_add_same_cancel2 add.commute placeholder_nonempty)
      moreover have "dollar_guarded [] R" using g token(1) guarded_suffix by metis
      ultimately have IHR: "sub_step (n, v) (single_pass table R) = single_pass ?table' R"
        using 1(1) by blast
      let ?Q = "\<lambda>item::string \<times> string. fst item = p"
      have sp: "single_pass table T =
          (case find ?Q table of Some item \<Rightarrow> snd item | None \<Rightarrow> placeholder p) @ single_pass table R"
        using single_pass_token [OF names(1) token(2), of R] token(1) Cons by simp
      have sp': "single_pass ?table' T =
          (case find ?Q ?table' of Some item \<Rightarrow> snd item | None \<Rightarrow> placeholder p) @ single_pass ?table' R"
        using single_pass_token [OF names' token(2), of R] token(1) Cons by simp
      show ?thesis
      proof (cases "find ?Q table")
        case (Some item)
        then have "item \<in> set table" by (rule find_in_set)
        with vals have "dollar_guarded [n] (snd item)" by blast
        then have "sub_step (n, v) (snd item @ single_pass table R) =
                   snd item @ sub_step (n, v) (single_pass table R)"
          by (rule sub_step_guarded [OF names(2)])
        with sp sp' Some IHR show ?thesis by (simp add: find_snoc)
      next
        case None
        show ?thesis
        proof (cases "p = n")
          case True
          have "sub_step (n, v) ([] @ placeholder n @ single_pass table R) =
                sub_step (n, v) [] @ v @ sub_step (n, v) (single_pass table R)"
            by (rule sub_step_same [OF names(2)])
          with sp sp' None True IHR show ?thesis by (simp add: find_snoc sub_step_Nil)
        next
          case False
          have "sub_step (n, v) ([] @ placeholder p @ single_pass table R) =
                sub_step (n, v) [] @ placeholder p @ sub_step (n, v) (single_pass table R)"
            by (rule sub_step_other [OF names(2) placeholder_not_sublist [OF names(2) token(2)]])
               (use False in simp)
          with sp sp' None False IHR show ?thesis by (simp add: find_snoc sub_step_Nil)
        qed
      qed
    qed
  qed
qed

lemma single_pass_empty_table: "single_pass [] T = T"
proof (induction T)
  case Nil
  then show ?case by (simp add: single_pass_Nil)
next
  case (Cons c T)
  then show ?case by (simp add: single_pass_copy)
qed

lemma values_guarded_snoc:
  "values_guarded (table @ [item]) \<Longrightarrow>
     values_guarded table \<and> (\<forall>x\<in>set table. dollar_guarded [fst item] (snd x))"
proof (induction table)
  case Nil
  then show ?case by simp
next
  case (Cons a table)
  then have "dollar_guarded (map fst table @ [fst item]) (snd a)" and "values_guarded (table @ [item])"
    by simp_all
  from this(1) have "dollar_guarded (map fst table) (snd a)" "dollar_guarded [fst item] (snd a)"
    by (auto elim: guarded_mono [rotated])
  with Cons.IH [OF \<open>values_guarded (table @ [item])\<close>] show ?case by simp
qed

lemma sub_loop_snoc: "sub_loop (table @ [item]) T = sub_step item (sub_loop table T)"
  by (simp add: sub_loop_def)

lemma sub_loop_single_pass:
  assumes T: "dollar_guarded [] T"
  shows "distinct (map fst table) \<Longrightarrow> \<forall>item\<in>set table. plain_name (fst item) \<Longrightarrow>
         values_guarded table \<Longrightarrow> sub_loop table T = single_pass table T"
proof (induction table rule: rev_induct)
  case Nil
  then show ?case by (simp add: sub_loop_def single_pass_empty_table)
next
  case (snoc item table)
  obtain n v where item: "item = (n, v)" by (cases item)
  from snoc.prems have d: "distinct (map fst table)" and fresh: "n \<notin> fst ` set table"
    and names: "\<forall>x\<in>set table. plain_name (fst x)" and n: "plain_name n"
    using item by auto
  from values_guarded_snoc [OF snoc.prems(3)] item
  have vg: "values_guarded table" and vals: "\<forall>x\<in>set table. dollar_guarded [n] (snd x)"
    by simp_all
  have "sub_loop table T = single_pass table T" using snoc.IH [OF d names vg] .
  then show ?case
    using single_pass_snoc [OF names n fresh vals T, of v] item by (simp add: sub_loop_snoc)
qed

lemma vars_to_sub_names:
  "map fst (vars_to_sub env) =
     [''KRATOS_DSN'', ''KRATOS_CIPHER_SECRET'', ''KRATOS_COOKIE_SECRET'', ''KRATOS_SMTP_CONNECTION_URI'']"
  by (simp add: vars_to_sub_def)

lemma vars_to_sub_distinct: "distinct (map fst (vars_to_sub env))"
  by (simp add: vars_to_sub_names)

lemma vars_to_sub_plain: "\<forall>item\<in>set (vars_to_sub env). plain_name (fst item)"
  by (simp add: vars_to_sub_def plain_name_def)

lemma find_sat: "find P xs = Some x \<Longrightarrow> P x"
  by (induction xs) (auto split: if_splits)

lemma find_same_set:
  assumes uniq: "\<And>x y. x \<in> set xs \<Longrightarrow> y \<in> set xs \<Longrightarrow> P x \<Longrightarrow> P y \<Longrightarrow> x = y"
    and eq: "set ys = set xs"
  shows "find P ys = find P xs"
proof (cases "find P xs")
  case None
  then have "\<not> (\<exists>x. x \<in> set ys \<and> P x)" using eq by (simp add: find_None_iff)
  then have "find P ys = None" unfolding find_None_iff .
  with None show ?thesis by simp
next
  case (Some x)
  then have x: "x \<in> set xs" "P x" by (auto dest: find_in_set find_sat)
  then have "find P ys \<noteq> None" using eq by (auto simp: find_None_iff)
  then obtain y where y: "find P ys = Some y" by auto
  then have "y \<in> set xs" "P y" using eq by (auto dest: find_in_set find_sat)
  with x uniq have "x = y" by blast
  with y Some show ?thesis by simp
qed

lemma placeholder_same_prefix:
  assumes "plain_name m" "plain_name n"
    and "prefix (placeholder m) s" "prefix (placeholder n) s"
  shows "m = n"
proof (rule ccontr)
  assume ne: "m \<noteq> n"
  from assms(3,4) have "prefix (placeholder m) (placeholder n) \<or> prefix (placeholder n) (placeholder m)"
    by (rule prefix_same_cases)
  then show False
    using placeholder_prefix_free [OF assms(1,2) ne, of "[]"]
      placeholder_prefix_free [OF assms(2,1) ne [symmetric], of "[]"] by auto
qed

text \<open>The single pass depends on the entries of the table only, not on their order.\<close>

lemma single_pass_same_set:
  assumes d: "distinct (map fst table)" and names: "\<forall>item\<in>set table. plain_name (fst item)"
    and eq: "set p = set table"
  shows "single_pass p s = single_pass table s"
proof (induction s rule: length_induct)
  case (1 s)
  let ?P = "\<lambda>item::string \<times> string. prefix (placeholder (fst item)) s"
  have f: "find ?P p = find ?P table"
  proof (rule find_same_set [OF _ eq])
    fix x y assume xy: "x \<in> set table" "y \<in> set table" "?P x" "?P y"
    with names have "fst x = fst y" by (blast intro: placeholder_same_prefix)
    with d xy(1,2) show "x = y" by (metis distinct_map inj_onD)
  qed
  show ?case
  proof (cases s)
    case Nil
    then show ?thesis by (simp add: single_pass_Nil)
  next
    case (Cons c cs)
    show ?thesis
    proof (cases "find ?P table")
      case None
      then have "single_pass p s = hd s # single_pass p (tl s)"
        and "single_pass table s = hd s # single_pass table (tl s)"
        using f Cons by (subst single_pass.simps, simp)+
      moreover have "single_pass p (tl s) = single_pass table (tl s)" using 1 Cons by simp
      ultimately show ?thesis by simp
    next
      case (Some item)
      let ?r = "drop (length (placeholder (fst item))) s"
      from Some have "single_pass p s = snd item @ single_pass p ?r"
        and "single_pass table s = snd item @ single_pass table ?r"
        using f Cons by (subst single_pass.simps, simp)+
      moreover have "length ?r < length s" using Cons by (simp add: placeholder_def)
      then have "single_pass p ?r = single_pass table ?r" using 1 by blast
      ultimately show ?thesis by simp
    qed
  qed
qed

lemma isolated_imp_guarded:
  "distinct (map fst p) \<Longrightarrow> set (map fst p) \<subseteq> set names \<Longrightarrow>
   \<forall>item\<in>set p. dollar_guarded (removeAll (fst item) names) (snd item) \<Longrightarrow> values_guarded p"
proof (induction p)
  case Nil
  then show ?case by simp
next
  case (Cons a p)
  have "fst a \<notin> set (map fst p)" using Cons.prems(1) by simp
  moreover have "set (map fst p) \<subseteq> set names" using Cons.prems(2) by simp
  ultimately have "set (map fst p) \<subseteq> set (removeAll (fst a) names)"
    unfolding set_removeAll by blast
  moreover have "dollar_guarded (removeAll (fst a) names) (snd a)" using Cons.prems(3) by simp
  ultimately have "dollar_guarded (map fst p) (snd a)" by (rule guarded_mono)
  moreover have "values_guarded p" using Cons by simp
  ultimately show ?case by simp
qed

subsection \<open>The loop around one placeholder\<close>

lemma sub_loop_Nil: "sub_loop table [] = []"
  by (induction table) (simp_all add: sub_loop_def sub_step_Nil)

lemma sub_loop_Cons: "sub_loop (item # table) T = sub_loop table (sub_step item T)"
  by (simp add: sub_loop_def)

lemma sub_loop_other:
  "\<forall>item\<in>set table. plain_name (fst item) \<and> \<not> sublist (placeholder (fst item)) (placeholder n) \<Longrightarrow>
   sub_loop table (pre @ placeholder n @ post) =
   sub_loop table pre @ placeholder n @ sub_loop table post"
proof (induction table arbitrary: pre post)
  case Nil
  then show ?case by (simp add: sub_loop_def)
next
  case (Cons item table)
  obtain m v where item: "item = (m, v)" by (cases item)
  with Cons.prems have "plain_name m" "\<not> sublist (placeholder m) (placeholder n)" by simp_all
  then have "sub_step item (pre @ placeholder n @ post) =
             sub_step item pre @ placeholder n @ sub_step item post"
    unfolding item by (rule sub_step_other)
  moreover have "\<forall>x\<in>set table. plain_name (fst x) \<and> \<not> sublist (placeholder (fst x)) (placeholder n)"
    using Cons.prems by simp
  ultimately show ?case using Cons.IH by (simp add: sub_loop_Cons)
qed

text \<open>
  The loop up to and including the entry of a name, around a placeholder of this name:
  the placeholder has become the value, the texts around it are processed separately.
\<close>

lemma sub_loop_upto:
  assumes d: "distinct (map fst (before @ [(n, v)]))"
    and names: "\<forall>item\<in>set (before @ [(n, v)]). plain_name (fst item)"
  shows "sub_loop (before @ [(n, v)]) (pre @ placeholder n @ post) =
         sub_loop (before @ [(n, v)]) pre @ v @ sub_loop (before @ [(n, v)]) post"
proof -
  from names have n: "plain_name n" by simp
  have "\<forall>item\<in>set before. plain_name (fst item) \<and> \<not> sublist (placeholder (fst item)) (placeholder n)"
  proof
    fix item assume i: "item \<in> set before"
    with names have p: "plain_name (fst item)" by simp
    from i d have "fst item \<noteq> n" by auto
    with p n show "plain_name (fst item) \<and> \<not> sublist (placeholder (fst item)) (placeholder n)"
      by (simp add: placeholder_not_sublist)
  qed
  then have "sub_loop before (pre @ placeholder n @ post) =
             sub_loop before pre @ placeholder n @ sub_loop before post"
    by (rule sub_loop_other)
  then show ?thesis by (simp add: sub_loop_snoc sub_step_same [OF n])
qed

lemma sub_loop_upto_join:
  assumes d: "distinct (map fst (before @ [(n, v)]))"
    and names: "\<forall>item\<in>set (before @ [(n, v)]). plain_name (fst item)"
  shows "sub_loop (before @ [(n, v)]) (join_with (placeholder n) ts) =
         join_with v (map (sub_loop (before @ [(n, v)])) ts)"
proof (induction ts rule: induct_list012)
  case 1
  then show ?case by (simp add: sub_loop_Nil)
next
  case (2 t)
  then show ?case by simp
next
  case (3 t u ts)
  then show ?case using sub_loop_upto [OF d names] by simp
qed

lemma sub_loop_absent:
  "\<forall>item\<in>set table. \<not> sublist (placeholder (fst item)) T \<Longrightarrow> sub_loop table T = T"
  by (induction table) (simp_all add: sub_loop_def sub_step_def str_replace_absent placeholder_nonempty)

lemma table_split_facts:
  assumes "vars_to_sub env = before @ (n, v) # after"
  shows "distinct (map fst (before @ [(n, v)]))"
    and "\<forall>item\<in>set (before @ [(n, v)]). plain_name (fst item)"
    and "substitute env T = sub_loop after (sub_loop (before @ [(n, v)]) T)"
    and "v = environ_get env n ''''"
proof -
  from vars_to_sub_distinct [of env] assms show "distinct (map fst (before @ [(n, v)]))" by simp
  from vars_to_sub_plain [of env] assms show "\<forall>item\<in>set (before @ [(n, v)]). plain_name (fst item)"
    by simp
  show "substitute env T = sub_loop after (sub_loop (before @ [(n, v)]) T)"
    using assms by (simp add: substitute_def sub_loop_def)
  have "\<forall>item\<in>set (vars_to_sub env). snd item = environ_get env (fst item) ''''"
    by (simp add: vars_to_sub_def)
  with assms show "v = environ_get env n ''''" by simp
qed

subsection \<open>Text without \<open>$\<close>, and a run whose files can be read and written\<close>

lemma no_dollar_no_placeholder:
  "CHR ''$'' \<notin> set s \<Longrightarrow> \<not> sublist (placeholder m) s"
proof
  assume a: "CHR ''$'' \<notin> set s" and "sublist (placeholder m) s"
  then have "set (placeholder m) \<subseteq> set s" by (simp add: set_mono_sublist)
  then show False using a by (simp add: placeholder_def)
qed

lemma sub_loop_no_dollar: "CHR ''$'' \<notin> set s \<Longrightarrow> sub_loop table s = s"
  by (rule sub_loop_absent) (simp add: no_dollar_no_placeholder)

lemma main_ok:
  assumes "files w template_file = Some content" "writable w output_file"
  shows "main [prog, template_file, output_file] env w =
     (Inr (),
      w\<lparr>files := (files w)(output_file \<mapsto> substitute env content),
        trace := trace w @
          [Read template_file, Write output_file (substitute env content),
           Print (''Substituted variables in '' @ template_file @ '' -> '' @ output_file)]\<rparr>)"
  using assms by (simp add: main_def argv_get_def read_file_def write_file_def print_line_def)

section \<open>The claims\<close>

subsection \<open>C1: a value and the replacements behind its own\<close>

text \<open>
  Claim C1, amended. Each replacement scans the whole current content, the
  values put in by the replacements before it included. The values are in the output
  as one pass over the template would put them, none scanned again, for a template and
  an environment of this kind: every \<open>$\<close> of the template is followed by a character
  other than \<open>{\<close> and \<open>$\<close>, or by \<open>{NAME}\<close> with no \<open>$\<close> in \<open>NAME\<close>; and so is every
  \<open>$\<close> of a resolved value, where \<open>NAME\<close> is no variable declared later than the
  value's own.
\<close>

theorem substitute_single_pass:
  assumes "dollar_guarded [] T" and "values_guarded (vars_to_sub env)"
  shows "substitute env T = single_pass (vars_to_sub env) T"
  unfolding substitute_def
  using sub_loop_single_pass [OF assms(1) vars_to_sub_distinct vars_to_sub_plain assms(2)] .

theorem substitute_single_pass_witness:
  "dollar_guarded [] ''d=${KRATOS_DSN};c=${KRATOS_CIPHER_SECRET};u=${USER};p=$1''
   \<and> values_guarded (vars_to_sub [''KRATOS_DSN'' \<mapsto> ''pg://${KRATOS_DSN}:$2a'',
         ''KRATOS_CIPHER_SECRET'' \<mapsto> ''<${KRATOS_DSN}>''])
   \<and> substitute [''KRATOS_DSN'' \<mapsto> ''pg://${KRATOS_DSN}:$2a'',
         ''KRATOS_CIPHER_SECRET'' \<mapsto> ''<${KRATOS_DSN}>'']
        ''d=${KRATOS_DSN};c=${KRATOS_CIPHER_SECRET};u=${USER};p=$1''
     = single_pass (vars_to_sub [''KRATOS_DSN'' \<mapsto> ''pg://${KRATOS_DSN}:$2a'',
         ''KRATOS_CIPHER_SECRET'' \<mapsto> ''<${KRATOS_DSN}>''])
        ''d=${KRATOS_DSN};c=${KRATOS_CIPHER_SECRET};u=${USER};p=$1''
   \<and> single_pass (vars_to_sub [''KRATOS_DSN'' \<mapsto> ''pg://${KRATOS_DSN}:$2a'',
         ''KRATOS_CIPHER_SECRET'' \<mapsto> ''<${KRATOS_DSN}>''])
        ''d=${KRATOS_DSN};c=${KRATOS_CIPHER_SECRET};u=${USER};p=$1''
     = ''d=pg://${KRATOS_DSN}:$2a;c=<${KRATOS_DSN}>;u=${USER};p=$1''"
proof -
  let ?E = "[''KRATOS_DSN'' \<mapsto> ''pg://${KRATOS_DSN}:$2a'',
         ''KRATOS_CIPHER_SECRET'' \<mapsto> ''<${KRATOS_DSN}>'']"
  let ?T = "''d=${KRATOS_DSN};c=${KRATOS_CIPHER_SECRET};u=${USER};p=$1''"
  have h1: "dollar_guarded [] ?T" by simp
  have h2: "values_guarded (vars_to_sub ?E)"
    by (simp add: vars_to_sub_def environ_get_def)
  have out: "single_pass (vars_to_sub ?E) ?T =
      ''d=pg://${KRATOS_DSN}:$2a;c=<${KRATOS_DSN}>;u=${USER};p=$1''"
    by (simp add: vars_to_sub_def environ_get_def placeholder_def single_pass.simps)
  from substitute_single_pass [OF h1 h2] h1 h2 out show ?thesis by blast
qed

text \<open>
  Claim C1 as the specification states it fails: the value of \<open>KRATOS_DSN\<close> holds the
  placeholder of \<open>KRATOS_CIPHER_SECRET\<close>, whose replacement comes later, scans the
  value and expands the placeholder. The template is the placeholder of \<open>KRATOS_DSN\<close>
  alone; the output is not its value, as one pass over the template would have it.
\<close>

theorem substitute_single_pass_counterexample:
  "substitute [''KRATOS_DSN'' \<mapsto> ''${KRATOS_CIPHER_SECRET}'', ''KRATOS_CIPHER_SECRET'' \<mapsto> ''x'']
      ''${KRATOS_DSN}''
     \<noteq> single_pass
        (vars_to_sub [''KRATOS_DSN'' \<mapsto> ''${KRATOS_CIPHER_SECRET}'', ''KRATOS_CIPHER_SECRET'' \<mapsto> ''x''])
        ''${KRATOS_DSN}''
   \<and> substitute [''KRATOS_DSN'' \<mapsto> ''${KRATOS_CIPHER_SECRET}'', ''KRATOS_CIPHER_SECRET'' \<mapsto> ''x'']
      ''${KRATOS_DSN}'' = ''x''
   \<and> environ_get [''KRATOS_DSN'' \<mapsto> ''${KRATOS_CIPHER_SECRET}'', ''KRATOS_CIPHER_SECRET'' \<mapsto> ''x'']
        ''KRATOS_DSN'' '''' = ''${KRATOS_CIPHER_SECRET}''
   \<and> single_pass
        (vars_to_sub [''KRATOS_DSN'' \<mapsto> ''${KRATOS_CIPHER_SECRET}'', ''KRATOS_CIPHER_SECRET'' \<mapsto> ''x''])
        ''${KRATOS_DSN}'' = ''${KRATOS_CIPHER_SECRET}''"
  by (simp add: substitute_def sub_loop_def vars_to_sub_def environ_get_def sub_step_def
      placeholder_def str_replace.simps single_pass.simps)

subsection \<open>C2: the order of the replacements\<close>

text \<open>
  Claim C2, amended. The order of the replacements is of no account for a
  template and an environment of this kind: every \<open>$\<close> of the template is followed by a
  character other than \<open>{\<close> and \<open>$\<close>, or by \<open>{NAME}\<close> with no \<open>$\<close> in \<open>NAME\<close>; and so
  is every \<open>$\<close> of a resolved value, where \<open>NAME\<close> is none of the other three
  variables. Then the loop over any arrangement of the table gives the output of the
  loop in the declared order.
\<close>

theorem any_order_same_output:
  assumes T: "dollar_guarded [] T" and iso: "values_isolated (vars_to_sub env)"
    and perm: "mset p = mset (vars_to_sub env)"
  shows "sub_loop p T = substitute env T"
proof -
  let ?table = "vars_to_sub env"
  from perm have sets: "set p = set ?table" by (rule mset_eq_setD)
  from perm have "mset (map fst p) = mset (map fst ?table)" by (metis mset_map)
  then have dp: "distinct (map fst p)" using vars_to_sub_distinct [of env]
    by (metis mset_eq_imp_distinct_iff)
  have np: "\<forall>item\<in>set p. plain_name (fst item)" using sets vars_to_sub_plain by simp
  have "\<forall>item\<in>set ?table. dollar_guarded (removeAll (fst item) (map fst ?table)) (snd item)"
    using iso by (simp add: values_isolated_def list_all_iff)
  then have iso_p: "\<forall>item\<in>set p. dollar_guarded (removeAll (fst item) (map fst ?table)) (snd item)"
    using sets by simp
  have "set (map fst p) \<subseteq> set (map fst ?table)" using sets by simp
  from isolated_imp_guarded [OF dp this iso_p] have gp: "values_guarded p" .
  have "set (map fst ?table) \<subseteq> set (map fst ?table)" by simp
  from isolated_imp_guarded [OF vars_to_sub_distinct this] iso
  have gt: "values_guarded ?table" by (simp add: values_isolated_def list_all_iff)
  have "sub_loop p T = single_pass p T" by (rule sub_loop_single_pass [OF T dp np gp])
  also have "\<dots> = single_pass ?table T"
    by (rule single_pass_same_set [OF vars_to_sub_distinct vars_to_sub_plain sets])
  also have "\<dots> = substitute env T"
    unfolding substitute_def
    by (rule sub_loop_single_pass [OF T vars_to_sub_distinct vars_to_sub_plain gt, symmetric])
  finally show ?thesis .
qed

theorem any_order_same_output_witness:
  "dollar_guarded [] ''d=${KRATOS_DSN};c=${KRATOS_CIPHER_SECRET};u=${USER};p=$1''
   \<and> values_isolated (vars_to_sub [''KRATOS_DSN'' \<mapsto> ''pg://${KRATOS_DSN}:$2a'',
         ''KRATOS_CIPHER_SECRET'' \<mapsto> ''<${HOME}>''])
   \<and> mset (rev (vars_to_sub [''KRATOS_DSN'' \<mapsto> ''pg://${KRATOS_DSN}:$2a'',
         ''KRATOS_CIPHER_SECRET'' \<mapsto> ''<${HOME}>'']))
       = mset (vars_to_sub [''KRATOS_DSN'' \<mapsto> ''pg://${KRATOS_DSN}:$2a'',
         ''KRATOS_CIPHER_SECRET'' \<mapsto> ''<${HOME}>''])
   \<and> sub_loop (rev (vars_to_sub [''KRATOS_DSN'' \<mapsto> ''pg://${KRATOS_DSN}:$2a'',
         ''KRATOS_CIPHER_SECRET'' \<mapsto> ''<${HOME}>'']))
        ''d=${KRATOS_DSN};c=${KRATOS_CIPHER_SECRET};u=${USER};p=$1''
     = substitute [''KRATOS_DSN'' \<mapsto> ''pg://${KRATOS_DSN}:$2a'',
         ''KRATOS_CIPHER_SECRET'' \<mapsto> ''<${HOME}>'']
        ''d=${KRATOS_DSN};c=${KRATOS_CIPHER_SECRET};u=${USER};p=$1''"
proof -
  let ?E = "[''KRATOS_DSN'' \<mapsto> ''pg://${KRATOS_DSN}:$2a'',
         ''KRATOS_CIPHER_SECRET'' \<mapsto> ''<${HOME}>'']"
  let ?T = "''d=${KRATOS_DSN};c=${KRATOS_CIPHER_SECRET};u=${USER};p=$1''"
  have h1: "dollar_guarded [] ?T" by simp
  have h2: "values_isolated (vars_to_sub ?E)"
    by (simp add: values_isolated_def vars_to_sub_def environ_get_def)
  have h3: "mset (rev (vars_to_sub ?E)) = mset (vars_to_sub ?E)" by simp
  from any_order_same_output [OF h1 h2 h3] h1 h2 h3 show ?thesis by blast
qed

text \<open>
  Claim C2 as the specification states it fails: with the placeholder of
  \<open>KRATOS_COOKIE_SECRET\<close> in the value of \<open>KRATOS_CIPHER_SECRET\<close>, the declared order
  expands it and the table read backwards does not.
\<close>

theorem any_order_same_output_counterexample:
  "mset (rev (vars_to_sub [''KRATOS_CIPHER_SECRET'' \<mapsto> ''${KRATOS_COOKIE_SECRET}'',
                           ''KRATOS_COOKIE_SECRET'' \<mapsto> ''c'']))
     = mset (vars_to_sub [''KRATOS_CIPHER_SECRET'' \<mapsto> ''${KRATOS_COOKIE_SECRET}'',
                           ''KRATOS_COOKIE_SECRET'' \<mapsto> ''c''])
   \<and> sub_loop (rev (vars_to_sub [''KRATOS_CIPHER_SECRET'' \<mapsto> ''${KRATOS_COOKIE_SECRET}'',
                                 ''KRATOS_COOKIE_SECRET'' \<mapsto> ''c'']))
        ''${KRATOS_CIPHER_SECRET}''
     \<noteq> substitute [''KRATOS_CIPHER_SECRET'' \<mapsto> ''${KRATOS_COOKIE_SECRET}'',
                    ''KRATOS_COOKIE_SECRET'' \<mapsto> ''c'']
        ''${KRATOS_CIPHER_SECRET}''
   \<and> sub_loop (rev (vars_to_sub [''KRATOS_CIPHER_SECRET'' \<mapsto> ''${KRATOS_COOKIE_SECRET}'',
                                 ''KRATOS_COOKIE_SECRET'' \<mapsto> ''c'']))
        ''${KRATOS_CIPHER_SECRET}'' = ''${KRATOS_COOKIE_SECRET}''
   \<and> substitute [''KRATOS_CIPHER_SECRET'' \<mapsto> ''${KRATOS_COOKIE_SECRET}'',
                  ''KRATOS_COOKIE_SECRET'' \<mapsto> ''c'']
        ''${KRATOS_CIPHER_SECRET}'' = ''c''"
  by (simp add: substitute_def sub_loop_def vars_to_sub_def environ_get_def sub_step_def
      placeholder_def str_replace.simps)

subsection \<open>C3: a template without placeholders\<close>

text \<open>
  Claim C3. A template in which none of the four placeholders occurs is written out
  unchanged, whatever the environment holds.
\<close>

theorem substitute_identity:
  assumes "\<not> sublist ''${KRATOS_DSN}'' T"
    and "\<not> sublist ''${KRATOS_CIPHER_SECRET}'' T"
    and "\<not> sublist ''${KRATOS_COOKIE_SECRET}'' T"
    and "\<not> sublist ''${KRATOS_SMTP_CONNECTION_URI}'' T"
  shows "substitute env T = T"
  unfolding substitute_def
  by (rule sub_loop_absent) (use assms in \<open>simp add: vars_to_sub_def placeholder_def\<close>)

theorem substitute_identity_witness:
  "\<not> sublist ''${KRATOS_DSN}'' ''port: ${PORT} $x''
   \<and> \<not> sublist ''${KRATOS_CIPHER_SECRET}'' ''port: ${PORT} $x''
   \<and> \<not> sublist ''${KRATOS_COOKIE_SECRET}'' ''port: ${PORT} $x''
   \<and> \<not> sublist ''${KRATOS_SMTP_CONNECTION_URI}'' ''port: ${PORT} $x''
   \<and> substitute [''KRATOS_DSN'' \<mapsto> ''postgres://x''] ''port: ${PORT} $x'' = ''port: ${PORT} $x''"
proof -
  have h1: "\<not> sublist ''${KRATOS_DSN}'' ''port: ${PORT} $x''" by code_simp
  have h2: "\<not> sublist ''${KRATOS_CIPHER_SECRET}'' ''port: ${PORT} $x''" by code_simp
  have h3: "\<not> sublist ''${KRATOS_COOKIE_SECRET}'' ''port: ${PORT} $x''" by code_simp
  have h4: "\<not> sublist ''${KRATOS_SMTP_CONNECTION_URI}'' ''port: ${PORT} $x''" by code_simp
  from substitute_identity [OF h1 h2 h3 h4] h1 h2 h3 h4 show ?thesis by blast
qed

subsection \<open>C4: an unset variable\<close>

text \<open>
  Claim C4. A variable of the table that is unset resolves to the empty string, no
  error arising, and an occurrence of its placeholder in the template is removed: the
  output is what the later replacements make of the text before and the text behind
  the occurrence, each as the replacements up to this variable's leave it, put
  together with nothing in between. Where the rest of the template has no \<open>$\<close>, the
  output is the template without the occurrence.
\<close>

theorem unset_variable_removed:
  assumes "vars_to_sub env = before @ (n, v) # after" and "env n = None"
  shows "v = ''''
    \<and> substitute env (pre @ placeholder n @ post) =
        sub_loop after
          (sub_loop (before @ [(n, v)]) pre @ sub_loop (before @ [(n, v)]) post)
    \<and> (CHR ''$'' \<notin> set pre \<and> CHR ''$'' \<notin> set post \<longrightarrow>
        substitute env (pre @ placeholder n @ post) = pre @ post)"
proof -
  note facts = table_split_facts [OF assms(1)]
  have v: "v = ''''" using facts(4) assms(2) by (simp add: environ_get_def)
  have eq: "substitute env (pre @ placeholder n @ post) =
        sub_loop after
          (sub_loop (before @ [(n, v)]) pre @ sub_loop (before @ [(n, v)]) post)"
    using facts(3) [of "pre @ placeholder n @ post"] sub_loop_upto [OF facts(1,2), of pre post] v
    by simp
  have "substitute env (pre @ placeholder n @ post) = pre @ post"
    if "CHR ''$'' \<notin> set pre \<and> CHR ''$'' \<notin> set post"
    using that eq by (simp add: sub_loop_no_dollar)
  with v eq show ?thesis by blast
qed

theorem unset_variable_removed_witness:
  "vars_to_sub [''KRATOS_DSN'' \<mapsto> ''postgres://x''] =
     [(''KRATOS_DSN'', ''postgres://x'')] @ (''KRATOS_CIPHER_SECRET'', '''') #
     [(''KRATOS_COOKIE_SECRET'', ''''), (''KRATOS_SMTP_CONNECTION_URI'', '''')]
   \<and> [''KRATOS_DSN'' \<mapsto> ''postgres://x''] ''KRATOS_CIPHER_SECRET'' = None
   \<and> substitute [''KRATOS_DSN'' \<mapsto> ''postgres://x'']
        (''SECRET='' @ placeholder ''KRATOS_CIPHER_SECRET'' @ '';'') = ''SECRET=;''"
proof -
  let ?E = "[''KRATOS_DSN'' \<mapsto> ''postgres://x'']"
  have h1: "vars_to_sub ?E =
     [(''KRATOS_DSN'', ''postgres://x'')] @ (''KRATOS_CIPHER_SECRET'', '''') #
     [(''KRATOS_COOKIE_SECRET'', ''''), (''KRATOS_SMTP_CONNECTION_URI'', '''')]"
    by (simp add: vars_to_sub_def environ_get_def)
  have h2: "?E ''KRATOS_CIPHER_SECRET'' = None" by simp
  have "substitute ?E (''SECRET='' @ placeholder ''KRATOS_CIPHER_SECRET'' @ '';'') = ''SECRET='' @ '';''"
    by (rule unset_variable_removed [OF h1 h2, THEN conjunct2, THEN conjunct2, THEN mp]) simp
  with h1 h2 show ?thesis by simp
qed

subsection \<open>C5: every occurrence of a placeholder\<close>

text \<open>
  Claim C5, amended. The replacement of a variable puts the variable's value
  in the place of every occurrence of its placeholder, the same value each time: for a
  template that is pieces joined by the placeholder, the content behind the
  replacements up to this variable's is the pieces, each as these replacements leave
  it, joined by the value. The output is what the replacements of the variables
  declared later make of this content: it is this content where no placeholder of a
  later variable occurs in it.
\<close>

theorem occurrences_replaced:
  assumes "vars_to_sub env = before @ (n, v) # after"
  shows "substitute env (join_with (placeholder n) ts) =
           sub_loop after (join_with v (map (sub_loop (before @ [(n, v)])) ts))
    \<and> ((\<forall>item\<in>set after. \<not> sublist (placeholder (fst item))
            (join_with v (map (sub_loop (before @ [(n, v)])) ts))) \<longrightarrow>
        substitute env (join_with (placeholder n) ts) =
          join_with v (map (sub_loop (before @ [(n, v)])) ts))"
proof -
  note facts = table_split_facts [OF assms]
  have eq: "substitute env (join_with (placeholder n) ts) =
           sub_loop after (join_with v (map (sub_loop (before @ [(n, v)])) ts))"
    using facts(3) [of "join_with (placeholder n) ts"] sub_loop_upto_join [OF facts(1,2), of ts]
    by simp
  then show ?thesis by (simp add: sub_loop_absent)
qed

theorem occurrences_replaced_witness:
  "vars_to_sub [''KRATOS_DSN'' \<mapsto> ''d'', ''KRATOS_CIPHER_SECRET'' \<mapsto> ''s3cr3t''] =
     [(''KRATOS_DSN'', ''d'')] @ (''KRATOS_CIPHER_SECRET'', ''s3cr3t'') #
     [(''KRATOS_COOKIE_SECRET'', ''''), (''KRATOS_SMTP_CONNECTION_URI'', '''')]
   \<and> substitute [''KRATOS_DSN'' \<mapsto> ''d'', ''KRATOS_CIPHER_SECRET'' \<mapsto> ''s3cr3t'']
        (join_with (placeholder ''KRATOS_CIPHER_SECRET'') [''a=${KRATOS_DSN};c='', '';c2='', '';''])
       = ''a=d;c=s3cr3t;c2=s3cr3t;''"
proof -
  let ?E = "[''KRATOS_DSN'' \<mapsto> ''d'', ''KRATOS_CIPHER_SECRET'' \<mapsto> ''s3cr3t'']"
  let ?ts = "[''a=${KRATOS_DSN};c='', '';c2='', '';'']"
  let ?up = "[(''KRATOS_DSN'', ''d'')] @ [(''KRATOS_CIPHER_SECRET'', ''s3cr3t'')]"
  let ?after = "[(''KRATOS_COOKIE_SECRET'', ''''), (''KRATOS_SMTP_CONNECTION_URI'', '''')]"
  have h1: "vars_to_sub ?E =
     [(''KRATOS_DSN'', ''d'')] @ (''KRATOS_CIPHER_SECRET'', ''s3cr3t'') # ?after"
    by (simp add: vars_to_sub_def environ_get_def)
  have content: "join_with ''s3cr3t'' (map (sub_loop ?up) ?ts) = ''a=d;c=s3cr3t;c2=s3cr3t;''"
    by (simp add: sub_loop_def sub_step_def placeholder_def str_replace.simps)
  have h2: "\<forall>item\<in>set ?after. \<not> sublist (placeholder (fst item))
              (join_with ''s3cr3t'' (map (sub_loop ?up) ?ts))"
    unfolding content by (simp add: placeholder_def sublist_Cons_right)
  have "substitute ?E (join_with (placeholder ''KRATOS_CIPHER_SECRET'') ?ts) =
        join_with ''s3cr3t'' (map (sub_loop ?up) ?ts)"
    using h2 by (rule occurrences_replaced [OF h1, THEN conjunct2, THEN mp])
  with h1 show ?thesis unfolding content by blast
qed

text \<open>
  Claim C5 as the specification states it fails where a value holds the placeholder of
  a variable declared later: both occurrences of \<open>${KRATOS_DSN}\<close> end up as the value
  with the mail variable's value put into it, not as the value of \<open>KRATOS_DSN\<close>.
\<close>

theorem occurrences_replaced_counterexample:
  "substitute [''KRATOS_DSN'' \<mapsto> ''a${KRATOS_SMTP_CONNECTION_URI}'',
               ''KRATOS_SMTP_CONNECTION_URI'' \<mapsto> ''smtp://m'']
        (join_with (placeholder ''KRATOS_DSN'') [''x='', '';y='', '';''])
     \<noteq> join_with (environ_get [''KRATOS_DSN'' \<mapsto> ''a${KRATOS_SMTP_CONNECTION_URI}'',
               ''KRATOS_SMTP_CONNECTION_URI'' \<mapsto> ''smtp://m''] ''KRATOS_DSN'' '''')
        [''x='', '';y='', '';'']
   \<and> substitute [''KRATOS_DSN'' \<mapsto> ''a${KRATOS_SMTP_CONNECTION_URI}'',
               ''KRATOS_SMTP_CONNECTION_URI'' \<mapsto> ''smtp://m'']
        (join_with (placeholder ''KRATOS_DSN'') [''x='', '';y='', '';''])
     = ''x=asmtp://m;y=asmtp://m;''
   \<and> join_with (environ_get [''KRATOS_DSN'' \<mapsto> ''a${KRATOS_SMTP_CONNECTION_URI}'',
               ''KRATOS_SMTP_CONNECTION_URI'' \<mapsto> ''smtp://m''] ''KRATOS_DSN'' '''')
        [''x='', '';y='', '';'']
     = ''x=a${KRATOS_SMTP_CONNECTION_URI};y=a${KRATOS_SMTP_CONNECTION_URI};''"
  by (simp add: substitute_def sub_loop_def vars_to_sub_def environ_get_def sub_step_def
      placeholder_def str_replace.simps)

subsection \<open>C6: placeholders of other names\<close>

text \<open>
  Claim C6. A placeholder \<open>${NAME}\<close> of another name stays in the output as it is,
  between the text before it and the text behind it, each substituted on its own, and
  the run does not fail on it. Another name is one that is free of \<open>$\<close> and \<open>}\<close> and
  none of the four variables; all that is used of it is that none of the four
  placeholders occurs in \<open>${NAME}\<close>.
\<close>

theorem unknown_placeholder_kept:
  assumes "plain_name n
      \<and> n \<notin> {''KRATOS_DSN'', ''KRATOS_CIPHER_SECRET'', ''KRATOS_COOKIE_SECRET'',
               ''KRATOS_SMTP_CONNECTION_URI''}
    \<or> (\<forall>item\<in>set (vars_to_sub env). \<not> sublist (placeholder (fst item)) (placeholder n))"
  shows "substitute env (pre @ placeholder n @ post) =
           substitute env pre @ placeholder n @ substitute env post
    \<and> (files w template_file = Some (pre @ placeholder n @ post) \<and> writable w output_file \<longrightarrow>
         fst (main [prog, template_file, output_file] env w) = Inr ()
         \<and> files (snd (main [prog, template_file, output_file] env w)) output_file =
             Some (substitute env pre @ placeholder n @ substitute env post))"
proof -
  have absent: "\<not> sublist (placeholder (fst item)) (placeholder n)"
    if i: "item \<in> set (vars_to_sub env)" for item
    using assms
  proof
    assume a: "plain_name n
      \<and> n \<notin> {''KRATOS_DSN'', ''KRATOS_CIPHER_SECRET'', ''KRATOS_COOKIE_SECRET'',
               ''KRATOS_SMTP_CONNECTION_URI''}"
    from i have "fst item \<in> set (map fst (vars_to_sub env))" by simp
    with a have "fst item \<noteq> n" unfolding vars_to_sub_names by auto
    moreover from i have "plain_name (fst item)" using vars_to_sub_plain by blast
    ultimately show ?thesis using a by (simp add: placeholder_not_sublist)
  next
    assume "\<forall>item\<in>set (vars_to_sub env). \<not> sublist (placeholder (fst item)) (placeholder n)"
    with i show ?thesis by blast
  qed
  have "\<forall>item\<in>set (vars_to_sub env).
          plain_name (fst item) \<and> \<not> sublist (placeholder (fst item)) (placeholder n)"
    using absent vars_to_sub_plain by blast
  then have eq: "substitute env (pre @ placeholder n @ post) =
           substitute env pre @ placeholder n @ substitute env post"
    unfolding substitute_def by (rule sub_loop_other)
  show ?thesis using eq by (simp add: main_ok)
qed

theorem unknown_placeholder_kept_witness:
  "plain_name ''UNKNOWN_VAR''
   \<and> substitute [''KRATOS_DSN'' \<mapsto> ''d''] (''a=${KRATOS_DSN} b='' @ placeholder ''UNKNOWN_VAR'' @ ''!'')
       = ''a=d b=${UNKNOWN_VAR}!''"
proof -
  let ?E = "[''KRATOS_DSN'' \<mapsto> ''d'']"
  have h1: "plain_name ''UNKNOWN_VAR''" by (simp add: plain_name_def)
  have h2: "''UNKNOWN_VAR'' \<notin> {''KRATOS_DSN'', ''KRATOS_CIPHER_SECRET'', ''KRATOS_COOKIE_SECRET'',
               ''KRATOS_SMTP_CONNECTION_URI''}" by simp
  have "substitute ?E (''a=${KRATOS_DSN} b='' @ placeholder ''UNKNOWN_VAR'' @ ''!'') =
        substitute ?E ''a=${KRATOS_DSN} b='' @ placeholder ''UNKNOWN_VAR'' @ substitute ?E ''!''"
    by (rule unknown_placeholder_kept [THEN conjunct1]) (use h1 h2 in blast)
  moreover have "substitute ?E ''a=${KRATOS_DSN} b='' = ''a=d b=''"
    by (simp add: substitute_def sub_loop_def vars_to_sub_def environ_get_def sub_step_def
        placeholder_def str_replace.simps)
  moreover have "substitute ?E ''!'' = ''!''"
    by (simp add: substitute_def sub_loop_def vars_to_sub_def environ_get_def sub_step_def
        placeholder_def str_replace.simps)
  ultimately show ?thesis using h1 by (simp add: placeholder_def)
qed

subsection \<open>C7: values are not patterns\<close>




subsection \<open>C8: arguments and exit status\<close>

text \<open>
  Claim C8. With fewer than two arguments behind the program name the script raises
  \<open>IndexError\<close> before it opens a file: the world, its trace included, is as
  before, and the exit status is 1. With exactly two arguments, a readable template and
  a writable output it reads, writes, prints the confirmation line and exits with 0.
\<close>

theorem main_arguments:
  "(length argv < 3 \<longrightarrow>
      main argv env w = (Inl IndexError, w) \<and> exit_status (main argv env w) = 1)
   \<and> (length argv = 3 \<and> files w (argv ! 1) = Some content \<and> writable w (argv ! 2) \<longrightarrow>
      main argv env w =
        (Inr (),
         w\<lparr>files := (files w)(argv ! 2 \<mapsto> substitute env content),
           trace := trace w @
             [Read (argv ! 1), Write (argv ! 2) (substitute env content),
              Print (''Substituted variables in '' @ argv ! 1 @ '' -> '' @ argv ! 2)]\<rparr>)
      \<and> exit_status (main argv env w) = 0)"
proof (intro conjI impI)
  assume "length argv < 3"
  then show m: "main argv env w = (Inl IndexError, w)"
    by (auto simp: main_def argv_get_def split: sum.splits)
  show "exit_status (main argv env w) = 1" by (simp add: m exit_status_def)
next
  assume a: "length argv = 3 \<and> files w (argv ! 1) = Some content \<and> writable w (argv ! 2)"
  then obtain prog where "argv = [prog, argv ! 1, argv ! 2]"
    by (cases argv; cases "tl argv"; cases "tl (tl argv)") auto
  with a main_ok [of w "argv ! 1" content "argv ! 2" prog env]
  show m: "main argv env w =
        (Inr (),
         w\<lparr>files := (files w)(argv ! 2 \<mapsto> substitute env content),
           trace := trace w @
             [Read (argv ! 1), Write (argv ! 2) (substitute env content),
              Print (''Substituted variables in '' @ argv ! 1 @ '' -> '' @ argv ! 2)]\<rparr>)"
    by metis
  show "exit_status (main argv env w) = 0" by (simp add: m exit_status_def)
qed

theorem main_arguments_witness:
  "main [''substitute.py'', ''in''] [''KRATOS_DSN'' \<mapsto> ''postgres://x'']
      \<lparr>files = [''in'' \<mapsto> ''DSN=${KRATOS_DSN};SECRET=${KRATOS_CIPHER_SECRET};''],
       writable = (\<lambda>p. True), trace = []\<rparr>
     = (Inl IndexError,
        \<lparr>files = [''in'' \<mapsto> ''DSN=${KRATOS_DSN};SECRET=${KRATOS_CIPHER_SECRET};''],
         writable = (\<lambda>p. True), trace = []\<rparr>)
   \<and> exit_status (main [''substitute.py'', ''in''] [''KRATOS_DSN'' \<mapsto> ''postgres://x'']
      \<lparr>files = [''in'' \<mapsto> ''DSN=${KRATOS_DSN};SECRET=${KRATOS_CIPHER_SECRET};''],
       writable = (\<lambda>p. True), trace = []\<rparr>) = 1
   \<and> main [''substitute.py'', ''in'', ''out''] [''KRATOS_DSN'' \<mapsto> ''postgres://x'']
      \<lparr>files = [''in'' \<mapsto> ''DSN=${KRATOS_DSN};SECRET=${KRATOS_CIPHER_SECRET};''],
       writable = (\<lambda>p. True), trace = []\<rparr>
     = (Inr (),
        \<lparr>files = [''in'' \<mapsto> ''DSN=${KRATOS_DSN};SECRET=${KRATOS_CIPHER_SECRET};'',
                  ''out'' \<mapsto> ''DSN=postgres://x;SECRET=;''],
         writable = (\<lambda>p. True),
         trace = [Read ''in'', Write ''out'' ''DSN=postgres://x;SECRET=;'',
                  Print ''Substituted variables in in -> out'']\<rparr>)
   \<and> exit_status (main [''substitute.py'', ''in'', ''out''] [''KRATOS_DSN'' \<mapsto> ''postgres://x'']
      \<lparr>files = [''in'' \<mapsto> ''DSN=${KRATOS_DSN};SECRET=${KRATOS_CIPHER_SECRET};''],
       writable = (\<lambda>p. True), trace = []\<rparr>) = 0"
proof -
  let ?E = "[''KRATOS_DSN'' \<mapsto> ''postgres://x'']"
  let ?T = "''DSN=${KRATOS_DSN};SECRET=${KRATOS_CIPHER_SECRET};''"
  let ?W = "\<lparr>files = [''in'' \<mapsto> ?T], writable = (\<lambda>p. True), trace = []\<rparr>"
  have out: "substitute ?E ?T = ''DSN=postgres://x;SECRET=;''"
    by (simp add: substitute_def sub_loop_def vars_to_sub_def environ_get_def sub_step_def
        placeholder_def str_replace.simps)
  have short: "main [''substitute.py'', ''in''] ?E ?W = (Inl IndexError, ?W)
      \<and> exit_status (main [''substitute.py'', ''in''] ?E ?W) = 1"
    by (rule main_arguments [THEN conjunct1, THEN mp]) simp
  let ?argv = "[''substitute.py'', ''in'', ''out'']"
  have "main ?argv ?E ?W
       = (Inr (),
          ?W\<lparr>files := (files ?W)(?argv ! 2 \<mapsto> substitute ?E ?T),
            trace := trace ?W @
              [Read (?argv ! 1), Write (?argv ! 2) (substitute ?E ?T),
               Print (''Substituted variables in '' @ ?argv ! 1 @ '' -> '' @ ?argv ! 2)]\<rparr>)
      \<and> exit_status (main ?argv ?E ?W) = 0"
    by (rule main_arguments [THEN conjunct2, THEN mp]) simp
  then have full: "main ?argv ?E ?W
       = (Inr (),
          \<lparr>files = [''in'' \<mapsto> ?T, ''out'' \<mapsto> ''DSN=postgres://x;SECRET=;''],
           writable = (\<lambda>p. True),
           trace = [Read ''in'', Write ''out'' ''DSN=postgres://x;SECRET=;'',
                    Print ''Substituted variables in in -> out'']\<rparr>)
      \<and> exit_status (main ?argv ?E ?W) = 0"
    unfolding out by (simp add: exit_status_def)
  from short full show ?thesis by blast
qed

subsection \<open>C9: the rest of the environment\<close>



subsection \<open>C10: further arguments\<close>

text \<open>
  Claim C10. Command-line arguments behind the first two are never read: a run with
  further arguments is the run with the first two alone.
\<close>

theorem extra_arguments_ignored:
  "main (prog # template_file # output_file # extra) env w =
   main [prog, template_file, output_file] env w"
  by (simp add: main_def argv_get_def)

end
